theory Spec2Isabelle
  imports Main
begin

section \<open>The hash dispatcher of maestro (package dispatcher)\<close>

text \<open>
  The dispatcher maps consumers to maestro instances with a consistent-hash ring and
  triggers a status resync for the consumers this instance acquires. The embedding follows
  the Go source function by function. Everything the dispatcher calls outside the package
  is made explicit:
  \<^item> the results of \<open>consumerDao.All\<close>, \<open>instanceDao.All\<close>, \<open>workQueue.Get\<close> and
    \<open>sourceClient.Resync\<close> are arguments of the function that makes the call;
  \<^item> the calls made on the work queue and on the source client are recorded, in order, in
    the dispatcher state;
  \<^item> a panic is an outcome of its own.
  The logger is left out: it changes none of the fields.
\<close>

subsection \<open>Data model\<close>

text \<open>\<open>api.Meta\<close>: the part of \<open>api.Consumer\<close> and \<open>api.ServerInstance\<close> the dispatcher reads.\<close>

record Meta =
  ID :: string

type_synonym Consumer = Meta
type_synonym ServerInstance = Meta

text \<open>
  An item of the work queue has the Go type \<open>interface{}\<close>: it is a string, or a value of
  some other dynamic type (told apart by a tag).
\<close>

datatype item = Str string | NonStr nat

text \<open>The calls the dispatcher makes on \<open>workqueue.RateLimitingInterface\<close>.\<close>

datatype queue_call =
    Add item
  | AddRateLimited item
  | Done item
  | Forget item
  | ShutDown

text \<open>
  What a call of a function with result type \<open>error\<close> does: it returns \<open>nil\<close>, returns an
  error with a message, or panics.
\<close>

datatype outcome = ReturnNil | ReturnErr string | Panic

text \<open>
  Modelled from the spec: the ring (\<open>github.com/buraksezer/consistent\<close>) and the \<open>String\<close>
  method of \<open>api.ServerInstance\<close> are not part of the sources. Following the spec, a ring
  is a set of replica IDs: the name \<open>member.String()\<close> of a member is its ID, \<open>Add\<close> and
  \<open>Remove\<close> are idempotent, and \<open>LocateKey\<close> is a deterministic function of the membership
  and the key. The locator is a parameter of the model: for the members of the ring and a
  key it gives the name of the member \<open>LocateKey\<close> returns, or \<open>None\<close> when \<open>LocateKey\<close>
  returns a nil member (on which \<open>.String()\<close> panics).
\<close>

type_synonym ring = "string set"
type_synonym locator = "ring \<Rightarrow> string \<Rightarrow> string option"

text \<open>
  The struct \<open>HashDispatcher\<close>. \<open>consistent\<close> is a pointer: \<open>None\<close> is \<open>nil\<close>.
  \<open>workQueue\<close> and \<open>sourceClient\<close> hold the calls made on the queue and the arguments of
  the \<open>Resync\<close> calls made on the source client, oldest first.
\<close>

record HashDispatcher =
  instanceID :: string
  consumerSet :: "string set"
  workQueue :: "queue_call list"
  sourceClient :: "string list list"
  consistent :: "ring option"

definition NewHashDispatcher :: "string \<Rightarrow> HashDispatcher" where
  "NewHashDispatcher inst =
     \<lparr>instanceID = inst, consumerSet = {}, workQueue = [], sourceClient = [],
      consistent = Some {}\<rparr>"

subsection \<open>Dispatch\<close>

definition Dispatch :: "string \<Rightarrow> HashDispatcher \<Rightarrow> bool" where
  "Dispatch consumerID d = (consumerID \<in> consumerSet d)"

subsection \<open>updateConsumerSet\<close>

text \<open>
  The loop over the listed consumers. The ring, the instance ID and the consumer set do not
  change while it runs; the accumulator is \<open>(toAddConsumers, toRemoveConsumers)\<close> and the
  call log of the work queue. \<open>Inl\<close> is a panic (nil member), with the log as it is then.
\<close>

fun rangeConsumers ::
  "locator \<Rightarrow> ring \<Rightarrow> string \<Rightarrow> string set \<Rightarrow> Consumer list \<Rightarrow>
   string list \<times> string list \<times> queue_call list \<Rightarrow>
   queue_call list + string list \<times> string list \<times> queue_call list" where
  "rangeConsumers L r me cs [] acc = Inr acc"
| "rangeConsumers L r me cs (consumer # rest) (toAdd, toRemove, wq) =
     (case L r (ID consumer) of
        None \<Rightarrow> Inl wq
      | Some owner \<Rightarrow>
          if owner = me then
            (if ID consumer \<notin> cs
             then rangeConsumers L r me cs rest
                    (toAdd @ [ID consumer], toRemove, wq @ [Add (Str (ID consumer))])
             else rangeConsumers L r me cs rest (toAdd, toRemove, wq))
          else
            (if ID consumer \<in> cs
             then rangeConsumers L r me cs rest (toAdd, toRemove @ [ID consumer], wq)
             else rangeConsumers L r me cs rest (toAdd, toRemove, wq)))"

text \<open>
  \<open>listed\<close> is what \<open>consumerDao.All\<close> returns if it is called: \<open>Inl\<close> the message of its
  error, \<open>Inr\<close> the consumers.
\<close>

definition updateConsumerSet ::
  "locator \<Rightarrow> string + Consumer list \<Rightarrow> HashDispatcher \<Rightarrow> outcome \<times> HashDispatcher" where
  "updateConsumerSet L listed d =
     (case consistent d of
        None \<Rightarrow> (ReturnNil, d)
      | Some r \<Rightarrow>
          if r = {} then (ReturnNil, d)
          else
            (case listed of
               Inl err \<Rightarrow> (ReturnErr (''unable to list consumers: '' @ err), d)
             | Inr consumers \<Rightarrow>
                 (case rangeConsumers L r (instanceID d) (consumerSet d) consumers
                         ([], [], workQueue d) of
                    Inl wq \<Rightarrow> (Panic, d\<lparr>workQueue := wq\<rparr>)
                  | Inr (toAdd, toRemove, wq) \<Rightarrow>
                      (ReturnNil,
                       d\<lparr>consumerSet := (consumerSet d \<union> set toAdd) - set toRemove,
                         workQueue := wq\<rparr>))))"

subsection \<open>OnInstanceUp, OnInstanceDown, check\<close>

text \<open>\<open>GetMembers\<close>, \<open>Add\<close> and \<open>Remove\<close> dereference the ring: on a nil pointer they panic.\<close>

definition OnInstanceUp ::
  "locator \<Rightarrow> string + Consumer list \<Rightarrow> string \<Rightarrow> HashDispatcher \<Rightarrow> outcome \<times> HashDispatcher" where
  "OnInstanceUp L listed inst d =
     (case consistent d of
        None \<Rightarrow> (Panic, d)
      | Some members \<Rightarrow>
          if inst \<in> members then (ReturnNil, d)
          else updateConsumerSet L listed (d\<lparr>consistent := Some (insert inst members)\<rparr>))"

definition OnInstanceDown ::
  "locator \<Rightarrow> string + Consumer list \<Rightarrow> string \<Rightarrow> HashDispatcher \<Rightarrow> outcome \<times> HashDispatcher" where
  "OnInstanceDown L listed inst d =
     (case consistent d of
        None \<Rightarrow> (Panic, d)
      | Some members \<Rightarrow>
          let deletedMember = (inst \<notin> members) in
          if deletedMember then (ReturnNil, d)
          else updateConsumerSet L listed (d\<lparr>consistent := Some (members - {inst})\<rparr>))"

definition isMemberActive :: "string \<Rightarrow> ServerInstance list \<Rightarrow> bool" where
  "isMemberActive member instances = list_ex (\<lambda>instance. member = ID instance) instances"

text \<open>
  \<open>check\<close> has no result; the model returns whether it returned (\<open>ReturnNil\<close>) or
  panicked. \<open>instances\<close> is what \<open>instanceDao.All\<close> returns. An error of
  \<open>updateConsumerSet\<close> is logged and dropped.
\<close>

definition check ::
  "locator \<Rightarrow> string + ServerInstance list \<Rightarrow> string + Consumer list \<Rightarrow> HashDispatcher \<Rightarrow>
   outcome \<times> HashDispatcher" where
  "check L instances listed d =
     (case instances of
        Inl err \<Rightarrow> (ReturnNil, d)
      | Inr insts \<Rightarrow>
          (case consistent d of
             None \<Rightarrow> (Panic, d)
           | Some members \<Rightarrow>
               (case updateConsumerSet L listed
                       (d\<lparr>consistent := Some (Set.filter (\<lambda>m. isMemberActive m insts) members)\<rparr>) of
                  (Panic, d') \<Rightarrow> (Panic, d')
                | (_, d') \<Rightarrow> (ReturnNil, d'))))"

subsection \<open>processNextResync and the worker loop\<close>

text \<open>
  \<open>got\<close> is what \<open>workQueue.Get\<close> returns, the item and the shutdown flag; \<open>resyncErr\<close> is
  what \<open>sourceClient.Resync\<close> returns if it is called (\<open>None\<close> is \<open>nil\<close>). The deferred
  \<open>Done\<close> is the last call before the function returns.
\<close>

definition processNextResync ::
  "item \<times> bool \<Rightarrow> string option \<Rightarrow> HashDispatcher \<Rightarrow> bool \<times> HashDispatcher" where
  "processNextResync got resyncErr d =
     (case got of (consumerID, shutdown) \<Rightarrow>
        if shutdown then (False, d)
        else
          (case consumerID of
             NonStr t \<Rightarrow>
               (True, d\<lparr>workQueue := workQueue d @ [Forget consumerID, Done consumerID]\<rparr>)
           | Str consumerIDStr \<Rightarrow>
               (case resyncErr of
                  Some err \<Rightarrow>
                    (True, d\<lparr>sourceClient := sourceClient d @ [[consumerIDStr]],
                              workQueue := workQueue d @ [AddRateLimited consumerID, Done consumerID]\<rparr>)
                | None \<Rightarrow>
                    (True, d\<lparr>sourceClient := sourceClient d @ [[consumerIDStr]],
                              workQueue := workQueue d @ [Done consumerID]\<rparr>))))"

text \<open>
  The loop \<open>for d.processNextResync(ctx) {}\<close> of one worker, run on the answers the queue
  and the source client give it, one pair for each round: it stops when
  \<open>processNextResync\<close> returns false (the second component says whether it did).
\<close>

fun workerLoop ::
  "((item \<times> bool) \<times> string option) list \<Rightarrow> HashDispatcher \<Rightarrow> HashDispatcher \<times> bool" where
  "workerLoop [] d = (d, False)"
| "workerLoop ((got, resyncErr) # answers) d =
     (case processNextResync got resyncErr d of
        (True, d') \<Rightarrow> workerLoop answers d'
      | (False, d') \<Rightarrow> (d', True))"

subsection \<open>Sequences of calls\<close>

text \<open>
  A call of one of the entry points of the dispatcher, with what the listings answer during
  it. \<open>calls\<close> runs a sequence of them, one after the other; \<open>None\<close> when one panics.
\<close>

datatype call =
    InstanceUp string "string + Consumer list"
  | InstanceDown string "string + Consumer list"
  | Tick "string + ServerInstance list" "string + Consumer list"

fun isInstanceUp :: "call \<Rightarrow> bool" where
  "isInstanceUp (InstanceUp inst listed) = True"
| "isInstanceUp (InstanceDown inst listed) = False"
| "isInstanceUp (Tick instances listed) = False"

fun doCall :: "locator \<Rightarrow> call \<Rightarrow> HashDispatcher \<Rightarrow> outcome \<times> HashDispatcher" where
  "doCall L (InstanceUp inst listed) d = OnInstanceUp L listed inst d"
| "doCall L (InstanceDown inst listed) d = OnInstanceDown L listed inst d"
| "doCall L (Tick instances listed) d = check L instances listed d"

fun calls :: "locator \<Rightarrow> call list \<Rightarrow> HashDispatcher \<Rightarrow> HashDispatcher option" where
  "calls L [] d = Some d"
| "calls L (c # cs) d =
     (case doCall L c d of
        (Panic, d') \<Rightarrow> None
      | (_, d') \<Rightarrow> calls L cs d')"

subsection \<open>Start and its goroutines\<close>

text \<open>
  \<open>Start\<close> runs beside the goroutines it starts, so it is modelled as a transition
  system: every thread has a program counter, and one step runs the next statement of one
  thread. A step that is \<open>None\<close> cannot be taken: the thread is blocked or has returned (or
  the process has panicked). The places of \<open>Start\<close>: the two \<open>go\<close> statements, the
  receive from \<open>ctx.Done()\<close>, the call of \<open>workQueue.ShutDown\<close>, and returned.
\<close>

datatype startPC = AtGoWorkers | AtGoCheck | AtCtxDone | AtShutDown | StartReturned

text \<open>
  The places of \<open>startStatusResyncWorkers\<close>: not yet started by \<open>Start\<close>, at \<open>wg.Add\<close>, in
  the loop that starts the workers (with its counter \<open>i\<close>), at \<open>wg.Wait\<close>, and returned.
\<close>

datatype poolPC = NotStarted | AtWgAdd | Spawning nat | AtWgWait | PoolReturned

text \<open>A worker goroutine is in its loop, or has left it and called the deferred \<open>wg.Done\<close>.\<close>

datatype worker = Running | Exited

record system =
  dispatcher :: HashDispatcher
  ctxDone :: bool
  startAt :: startPC
  poolAt :: poolPC
  wg :: nat
  workers :: "worker list"
  ticker :: bool

definition maxConcurrentResyncHandlers :: nat where
  "maxConcurrentResyncHandlers = 10"

text \<open>The system when \<open>Start\<close> is called on a dispatcher, with a context not yet cancelled.\<close>

definition boot :: "HashDispatcher \<Rightarrow> system" where
  "boot d =
     \<lparr>dispatcher = d, ctxDone = False, startAt = AtGoWorkers, poolAt = NotStarted, wg = 0,
      workers = [], ticker = False\<rparr>"

text \<open>One statement of \<open>Start\<close>. The receive from \<open>ctx.Done()\<close> blocks until the context is cancelled.\<close>

fun Start :: "system \<Rightarrow> system option" where
  "Start s =
     (case startAt s of
        AtGoWorkers \<Rightarrow> Some (s\<lparr>startAt := AtGoCheck, poolAt := AtWgAdd\<rparr>)
      | AtGoCheck \<Rightarrow> Some (s\<lparr>startAt := AtCtxDone, ticker := True\<rparr>)
      | AtCtxDone \<Rightarrow> if ctxDone s then Some (s\<lparr>startAt := AtShutDown\<rparr>) else None
      | AtShutDown \<Rightarrow>
          Some (s\<lparr>startAt := StartReturned,
                  dispatcher := (dispatcher s)\<lparr>workQueue := workQueue (dispatcher s) @ [ShutDown]\<rparr>\<rparr>)
      | StartReturned \<Rightarrow> None)"

text \<open>One statement of \<open>startStatusResyncWorkers\<close>. \<open>wg.Wait\<close> blocks until the counter is zero.\<close>

fun startStatusResyncWorkers :: "system \<Rightarrow> system option" where
  "startStatusResyncWorkers s =
     (case poolAt s of
        NotStarted \<Rightarrow> None
      | AtWgAdd \<Rightarrow> Some (s\<lparr>wg := maxConcurrentResyncHandlers, poolAt := Spawning 0\<rparr>)
      | Spawning i \<Rightarrow>
          if i < maxConcurrentResyncHandlers
          then Some (s\<lparr>workers := workers s @ [Running], poolAt := Spawning (i + 1)\<rparr>)
          else Some (s\<lparr>poolAt := AtWgWait\<rparr>)
      | AtWgWait \<Rightarrow> if wg s = 0 then Some (s\<lparr>poolAt := PoolReturned\<rparr>) else None
      | PoolReturned \<Rightarrow> None)"

text \<open>
  One round of the loop of worker \<open>i\<close>: a call of \<open>processNextResync\<close> with the answers of
  the queue and of the source client. The queue answers with the shutdown flag only after
  \<open>ShutDown\<close> was called on it. When \<open>processNextResync\<close> returns false the worker leaves
  the loop and its deferred \<open>wg.Done\<close> runs, which panics on a counter that is zero.
\<close>

fun resyncWorker :: "nat \<Rightarrow> item \<times> bool \<Rightarrow> string option \<Rightarrow> system \<Rightarrow> system option" where
  "resyncWorker i got resyncErr s =
     (if i < length (workers s) \<and> workers s ! i = Running \<and>
         (snd got \<longrightarrow> ShutDown \<in> set (workQueue (dispatcher s)))
      then
        (case processNextResync got resyncErr (dispatcher s) of
           (True, d') \<Rightarrow> Some (s\<lparr>dispatcher := d'\<rparr>)
         | (False, d') \<Rightarrow>
             if wg s = 0 then None
             else Some (s\<lparr>dispatcher := d', workers := (workers s)[i := Exited], wg := wg s - 1\<rparr>))
      else None)"

text \<open>
  One run of \<open>check\<close> by \<open>wait.Until\<close>, which looks at \<open>ctx.Done()\<close> before each run.
\<close>

fun untilCheck ::
  "locator \<Rightarrow> string + ServerInstance list \<Rightarrow> string + Consumer list \<Rightarrow> system \<Rightarrow> system option" where
  "untilCheck L instances listed s =
     (if ticker s \<and> \<not> ctxDone s
      then
        (case check L instances listed (dispatcher s) of
           (Panic, d') \<Rightarrow> None
         | (_, d') \<Rightarrow> Some (s\<lparr>dispatcher := d'\<rparr>))
      else None)"

text \<open>
  What can happen next: the context is cancelled from outside, or one of the threads takes
  a step. \<open>exec\<close> runs a schedule, a list of such actions.
\<close>

datatype action =
    CancelCtx
  | StepStart
  | StepPool
  | StepWorker nat "item \<times> bool" "string option"
  | StepCheck "string + ServerInstance list" "string + Consumer list"

fun step :: "locator \<Rightarrow> action \<Rightarrow> system \<Rightarrow> system option" where
  "step L CancelCtx s = Some (s\<lparr>ctxDone := True\<rparr>)"
| "step L StepStart s = Start s"
| "step L StepPool s = startStatusResyncWorkers s"
| "step L (StepWorker i got resyncErr) s = resyncWorker i got resyncErr s"
| "step L (StepCheck instances listed) s = untilCheck L instances listed s"

fun exec :: "locator \<Rightarrow> action list \<Rightarrow> system \<Rightarrow> system option" where
  "exec L [] s = Some s"
| "exec L (a # as) s = (case step L a s of None \<Rightarrow> None | Some s' \<Rightarrow> exec L as s')"

text \<open>The invariants of the system that the proofs below carry along a schedule.\<close>

definition startInv :: "system \<Rightarrow> bool" where
  "startInv s \<longleftrightarrow>
     (startAt s = AtShutDown \<longrightarrow> ctxDone s) \<and>
     (startAt s = StartReturned \<longrightarrow> ctxDone s \<and> ShutDown \<in> set (workQueue (dispatcher s)))"

definition poolInv :: "system \<Rightarrow> bool" where
  "poolInv s \<longleftrightarrow>
     (startAt s = AtGoWorkers \<longrightarrow> poolAt s = NotStarted) \<and>
     (case poolAt s of
        NotStarted \<Rightarrow> workers s = []
      | AtWgAdd \<Rightarrow> workers s = []
      | Spawning i \<Rightarrow>
          length (workers s) = i \<and> i \<le> maxConcurrentResyncHandlers \<and>
          wg s + length (filter (\<lambda>w. w = Exited) (workers s)) = maxConcurrentResyncHandlers
      | AtWgWait \<Rightarrow>
          length (workers s) = maxConcurrentResyncHandlers \<and>
          wg s + length (filter (\<lambda>w. w = Exited) (workers s)) = maxConcurrentResyncHandlers
      | PoolReturned \<Rightarrow>
          length (workers s) = maxConcurrentResyncHandlers \<and>
          (\<forall>w \<in> set (workers s). w = Exited))"

subsection \<open>Rings, dispatchers and schedules for the examples\<close>

text \<open>
  A locator for rings over the replicas \<open>A\<close> and \<open>B\<close>: with both in the ring, \<open>B\<close> gets
  the key \<open>c2\<close> and \<open>A\<close> every other key; a ring with one of them gives it every key; an
  empty ring gives no member.
\<close>

definition sampleLocator :: locator where
  "sampleLocator members key =
     (if ''B'' \<in> members \<and> (key = ''c2'' \<or> ''A'' \<notin> members) then Some ''B''
      else if ''A'' \<in> members then Some ''A''
      else None)"

text \<open>
  Replica \<open>A\<close> in a ring with \<open>B\<close>, owning \<open>c2\<close> and \<open>c3\<close>; the consumers \<open>c1\<close>, \<open>c2\<close>, \<open>c3\<close>;
  and \<open>A\<close> after a reconciliation with that listing.
\<close>

definition ownerOfTwo :: HashDispatcher where
  "ownerOfTwo =
     \<lparr>instanceID = ''A'', consumerSet = {''c2'', ''c3''}, workQueue = [], sourceClient = [],
      consistent = Some {''A'', ''B''}\<rparr>"

definition threeConsumers :: "Consumer list" where
  "threeConsumers = [\<lparr>ID = ''c1''\<rparr>, \<lparr>ID = ''c2''\<rparr>, \<lparr>ID = ''c3''\<rparr>]"

definition ownerReconciled :: HashDispatcher where
  "ownerReconciled =
     \<lparr>instanceID = ''A'', consumerSet = {''c1'', ''c3''}, workQueue = [Add (Str ''c1'')],
      sourceClient = [], consistent = Some {''A'', ''B''}\<rparr>"

text \<open>Replica \<open>A\<close> still owning \<open>c2\<close> in a ring that gives \<open>c2\<close> to \<open>B\<close>.\<close>

definition staleOwner :: HashDispatcher where
  "staleOwner =
     \<lparr>instanceID = ''A'', consumerSet = {''c1'', ''c2''},
      workQueue = [Add (Str ''c1''), Add (Str ''c2'')],
      sourceClient = [], consistent = Some {''A'', ''B''}\<rparr>"

text \<open>Replica \<open>A\<close> owning \<open>c1\<close>, with a ring that has lost all its members.\<close>

definition ownerWithoutRing :: HashDispatcher where
  "ownerWithoutRing =
     \<lparr>instanceID = ''A'', consumerSet = {''c1''}, workQueue = [Add (Str ''c1'')],
      sourceClient = [], consistent = Some {}\<rparr>"

text \<open>
  A schedule in which all ten workers are started, the context is cancelled and \<open>Start\<close>
  runs to its end, and the state it leads to; then a schedule in which every worker sees
  the shutdown and \<open>wg.Wait\<close> returns, and the state after it.
\<close>

definition untilShutDown :: "action list" where
  "untilShutDown =
     [StepStart, StepStart,
      StepPool, StepPool, StepPool, StepPool, StepPool, StepPool,
      StepPool, StepPool, StepPool, StepPool, StepPool, StepPool,
      CancelCtx, StepStart, StepStart]"

definition returnedEarly :: system where
  "returnedEarly =
     \<lparr>dispatcher = \<lparr>instanceID = ''A'', consumerSet = {}, workQueue = [ShutDown],
                     sourceClient = [], consistent = Some {}\<rparr>,
      ctxDone = True, startAt = StartReturned, poolAt = AtWgWait, wg = 10,
      workers = [Running, Running, Running, Running, Running,
                 Running, Running, Running, Running, Running],
      ticker = True\<rparr>"

definition untilWorkersExit :: "action list" where
  "untilWorkersExit =
     [StepWorker 0 (NonStr 0, True) None, StepWorker 1 (NonStr 0, True) None,
      StepWorker 2 (NonStr 0, True) None, StepWorker 3 (NonStr 0, True) None,
      StepWorker 4 (NonStr 0, True) None, StepWorker 5 (NonStr 0, True) None,
      StepWorker 6 (NonStr 0, True) None, StepWorker 7 (NonStr 0, True) None,
      StepWorker 8 (NonStr 0, True) None, StepWorker 9 (NonStr 0, True) None,
      StepPool]"

definition allStopped :: system where
  "allStopped =
     \<lparr>dispatcher = \<lparr>instanceID = ''A'', consumerSet = {}, workQueue = [ShutDown],
                     sourceClient = [], consistent = Some {}\<rparr>,
      ctxDone = True, startAt = StartReturned, poolAt = PoolReturned, wg = 0,
      workers = [Exited, Exited, Exited, Exited, Exited,
                 Exited, Exited, Exited, Exited, Exited],
      ticker = True\<rparr>"

section \<open>Properties\<close>

subsection \<open>Facts about the loop and the reconciliation\<close>

lemma rangeConsumers_sets:
  "rangeConsumers L r me cs consumers (toAdd, toRemove, wq) = Inr (toAdd', toRemove', wq') \<Longrightarrow>
   set toAdd' = set toAdd \<union> {c. c \<in> ID ` set consumers \<and> L r c = Some me \<and> c \<notin> cs} \<and>
   set toRemove' = set toRemove \<union> {c. c \<in> ID ` set consumers \<and> L r c \<noteq> Some me \<and> c \<in> cs}"
proof (induction consumers arbitrary: toAdd toRemove wq)
  case Nil
  then show ?case by simp
next
  case (Cons consumer rest)
  then show ?case
    by (auto split: option.splits if_splits)
qed

lemma rangeConsumers_log:
  "rangeConsumers L r me cs consumers (toAdd, toRemove, wq) = Inr (toAdd', toRemove', wq') \<Longrightarrow>
   \<exists>new. toAdd' = toAdd @ new \<and> wq' = wq @ map (\<lambda>c. Add (Str c)) new"
proof (induction consumers arbitrary: toAdd toRemove wq)
  case Nil
  then show ?case by simp
next
  case (Cons consumer rest)
  then show ?case
    by (fastforce split: option.splits if_splits)
qed

lemma rangeConsumers_panic_log:
  "rangeConsumers L r me cs consumers (toAdd, toRemove, wq) = Inl wq' \<Longrightarrow>
   \<exists>new. wq' = wq @ map (\<lambda>c. Add (Str c)) new \<and>
     set new \<subseteq> {c. c \<in> ID ` set consumers \<and> L r c = Some me \<and> c \<notin> cs}"
proof (induction consumers arbitrary: toAdd toRemove wq)
  case Nil
  then show ?case by simp
next
  case (Cons consumer rest)
  show ?case
  proof (cases "L r (ID consumer)")
    case None
    with Cons.prems show ?thesis by (intro exI [of _ "[]"]) simp
  next
    case (Some owner)
    show ?thesis
    proof (cases "owner = me \<and> ID consumer \<notin> cs")
      case True
      with Some Cons.prems
      have "rangeConsumers L r me cs rest (toAdd @ [ID consumer], toRemove, wq @ [Add (Str (ID consumer))]) = Inl wq'"
        by simp
      from Cons.IH [OF this] obtain new where
        "wq' = (wq @ [Add (Str (ID consumer))]) @ map (\<lambda>c. Add (Str c)) new"
        "set new \<subseteq> {c. c \<in> ID ` set rest \<and> L r c = Some me \<and> c \<notin> cs}" by blast
      with True Some show ?thesis
        by (intro exI [of _ "ID consumer # new"]) auto
    next
      case False
      with Some Cons.prems
      have "\<exists>ta tr. rangeConsumers L r me cs rest (ta, tr, wq) = Inl wq'"
        by (auto split: if_splits)
      then obtain ta tr where "rangeConsumers L r me cs rest (ta, tr, wq) = Inl wq'" by blast
      from Cons.IH [OF this] show ?thesis by auto
    qed
  qed
qed

lemma updateConsumerSet_ReturnNil:
  assumes "consistent d = Some r" and "r \<noteq> {}" and "listed = Inr consumers"
    and "updateConsumerSet L listed d = (ReturnNil, d')"
  shows "\<exists>new. set new = {c. c \<in> ID ` set consumers \<and> L r c = Some (instanceID d) \<and> c \<notin> consumerSet d} \<and>
     workQueue d' = workQueue d @ map (\<lambda>c. Add (Str c)) new \<and>
     consumerSet d' = (consumerSet d \<union> set new) -
        {c. c \<in> ID ` set consumers \<and> L r c \<noteq> Some (instanceID d) \<and> c \<in> consumerSet d} \<and>
     instanceID d' = instanceID d \<and> consistent d' = consistent d \<and> sourceClient d' = sourceClient d"
proof -
  from assms obtain toAdd toRemove wq where
    run: "rangeConsumers L r (instanceID d) (consumerSet d) consumers ([], [], workQueue d) =
            Inr (toAdd, toRemove, wq)"
    and d': "d' = d\<lparr>consumerSet := (consumerSet d \<union> set toAdd) - set toRemove, workQueue := wq\<rparr>"
    by (auto simp: updateConsumerSet_def split: sum.splits prod.splits)
  from rangeConsumers_sets [OF run] rangeConsumers_log [OF run] d'
  show ?thesis by (intro exI [of _ toAdd]) auto
qed

lemma updateConsumerSet_consistent:
  "updateConsumerSet L listed d = (res, d') \<Longrightarrow>
   consistent d' = consistent d \<and> instanceID d' = instanceID d \<and> sourceClient d' = sourceClient d"
  by (auto simp: updateConsumerSet_def split: option.splits sum.splits prod.splits if_splits)

lemma updateConsumerSet_empty_ring:
  "consistent d = Some {} \<Longrightarrow> updateConsumerSet L listed d = (ReturnNil, d)"
  by (simp add: updateConsumerSet_def)

lemma ownerOfTwo_reconcile:
  "updateConsumerSet sampleLocator (Inr threeConsumers) ownerOfTwo = (ReturnNil, ownerReconciled)"
  by (simp add: updateConsumerSet_def ownerOfTwo_def threeConsumers_def ownerReconciled_def
        sampleLocator_def insert_commute)

subsection \<open>What a reconciliation does to the consumer set\<close>

text \<open>
  C1. When \<open>updateConsumerSet\<close> returns \<open>nil\<close> on a ring with members and a listing that
  succeeded, then for every listed consumer \<open>c\<close>: if the ring locates \<open>c.ID\<close> on this instance
  and \<open>c.ID\<close> was not in the consumer set, it is in the set afterwards; if the ring locates
  it elsewhere and it was in the set, it is not in the set afterwards; in every other case
  its membership is as before.
\<close>

theorem updateConsumerSet_listed_membership:
  assumes "consistent d = Some r" and "r \<noteq> {}" and "listed = Inr consumers"
    and "updateConsumerSet L listed d = (ReturnNil, d')" and "c \<in> set consumers"
  shows "(L r (ID c) = Some (instanceID d) \<and> ID c \<notin> consumerSet d \<longrightarrow> ID c \<in> consumerSet d') \<and>
         (L r (ID c) \<noteq> Some (instanceID d) \<and> ID c \<in> consumerSet d \<longrightarrow> ID c \<notin> consumerSet d') \<and>
         (\<not> (L r (ID c) = Some (instanceID d) \<and> ID c \<notin> consumerSet d) \<and>
          \<not> (L r (ID c) \<noteq> Some (instanceID d) \<and> ID c \<in> consumerSet d) \<longrightarrow>
            (ID c \<in> consumerSet d' \<longleftrightarrow> ID c \<in> consumerSet d))"
proof -
  from updateConsumerSet_ReturnNil [OF assms(1-4)] obtain new where
    new: "set new = {c. c \<in> ID ` set consumers \<and> L r c = Some (instanceID d) \<and> c \<notin> consumerSet d}"
    and cs: "consumerSet d' = (consumerSet d \<union> set new) -
        {c. c \<in> ID ` set consumers \<and> L r c \<noteq> Some (instanceID d) \<and> c \<in> consumerSet d}"
    by blast
  from assms(5) have "ID c \<in> ID ` set consumers" by simp
  with new cs show ?thesis by auto
qed

theorem updateConsumerSet_listed_membership_witness:
  "consistent ownerOfTwo = Some {''A'', ''B''} \<and> {''A'', ''B''} \<noteq> ({} :: string set) \<and>
   updateConsumerSet sampleLocator (Inr threeConsumers) ownerOfTwo = (ReturnNil, ownerReconciled) \<and>
   \<lparr>ID = ''c1''\<rparr> \<in> set threeConsumers \<and> \<lparr>ID = ''c2''\<rparr> \<in> set threeConsumers \<and>
   \<lparr>ID = ''c3''\<rparr> \<in> set threeConsumers \<and>
   ''c1'' \<notin> consumerSet ownerOfTwo \<and> ''c1'' \<in> consumerSet ownerReconciled \<and>
   ''c2'' \<in> consumerSet ownerOfTwo \<and> ''c2'' \<notin> consumerSet ownerReconciled \<and>
   ''c3'' \<in> consumerSet ownerOfTwo \<and> ''c3'' \<in> consumerSet ownerReconciled"
proof -
  have r: "consistent ownerOfTwo = Some {''A'', ''B''}" by (simp add: ownerOfTwo_def)
  have ne: "{''A'', ''B''} \<noteq> ({} :: string set)" by simp
  have l: "(Inr threeConsumers :: string + Consumer list) = Inr threeConsumers" by simp
  have m1: "\<lparr>ID = ''c1''\<rparr> \<in> set threeConsumers" by (simp add: threeConsumers_def)
  have m2: "\<lparr>ID = ''c2''\<rparr> \<in> set threeConsumers" by (simp add: threeConsumers_def)
  have m3: "\<lparr>ID = ''c3''\<rparr> \<in> set threeConsumers" by (simp add: threeConsumers_def)
  note inst = updateConsumerSet_listed_membership [OF r ne l ownerOfTwo_reconcile]
  from inst [OF m1] inst [OF m2] inst [OF m3] r ne m1 m2 m3 ownerOfTwo_reconcile
  show ?thesis by (simp add: ownerOfTwo_def ownerReconciled_def sampleLocator_def)
qed

text \<open>
  C2. In a reconciliation that does not panic, the calls added to the work queue are
  exactly the calls \<open>Add\<close> of the IDs newly acquired: the ID is listed (so the ring has
  members and the listing succeeded), the ring locates it on this instance, and it was not
  in the consumer set. An ID that leaves the consumer set is not among them.
\<close>

theorem updateConsumerSet_enqueues_acquired:
  assumes "updateConsumerSet L listed d = (res, d')" and "res \<noteq> Panic"
  shows "\<exists>new. workQueue d' = workQueue d @ new \<and>
     (\<forall>q. q \<in> set new \<longleftrightarrow>
        (\<exists>r consumers c. consistent d = Some r \<and> r \<noteq> {} \<and> listed = Inr consumers \<and>
           c \<in> set consumers \<and> q = Add (Str (ID c)) \<and>
           L r (ID c) = Some (instanceID d) \<and> ID c \<notin> consumerSet d)) \<and>
     (\<forall>c. c \<in> consumerSet d \<and> c \<notin> consumerSet d' \<longrightarrow> Add (Str c) \<notin> set new)"
proof (cases "\<exists>r consumers. consistent d = Some r \<and> r \<noteq> {} \<and> listed = Inr consumers")
  case True
  then obtain r consumers where
    h: "consistent d = Some r" "r \<noteq> {}" "listed = Inr consumers" by blast
  with assms have nil: "updateConsumerSet L listed d = (ReturnNil, d')"
    by (auto simp: updateConsumerSet_def split: sum.splits prod.splits)
  from updateConsumerSet_ReturnNil [OF h nil] obtain new where
    new: "set new = {c. c \<in> ID ` set consumers \<and> L r c = Some (instanceID d) \<and> c \<notin> consumerSet d}"
    and wq: "workQueue d' = workQueue d @ map (\<lambda>c. Add (Str c)) new"
    by blast
  show ?thesis
  proof (intro exI [of _ "map (\<lambda>c. Add (Str c)) new"] conjI allI)
    show "workQueue d' = workQueue d @ map (\<lambda>c. Add (Str c)) new" by (rule wq)
  next
    fix q
    show "q \<in> set (map (\<lambda>c. Add (Str c)) new) \<longleftrightarrow>
        (\<exists>r consumers c. consistent d = Some r \<and> r \<noteq> {} \<and> listed = Inr consumers \<and>
           c \<in> set consumers \<and> q = Add (Str (ID c)) \<and>
           L r (ID c) = Some (instanceID d) \<and> ID c \<notin> consumerSet d)"
      using new h by auto
  next
    fix c
    show "c \<in> consumerSet d \<and> c \<notin> consumerSet d' \<longrightarrow> Add (Str c) \<notin> set (map (\<lambda>c. Add (Str c)) new)"
      using new by auto
  qed
next
  case False
  with assms have "d' = d"
    by (auto simp: updateConsumerSet_def split: option.splits sum.splits if_splits)
  with False show ?thesis by (intro exI [of _ "[]"]) auto
qed

theorem updateConsumerSet_enqueues_acquired_witness:
  "updateConsumerSet sampleLocator (Inr threeConsumers) ownerOfTwo = (ReturnNil, ownerReconciled) \<and>
   ReturnNil \<noteq> Panic \<and>
   (\<exists>new. workQueue ownerReconciled = workQueue ownerOfTwo @ new \<and>
     (\<forall>q. q \<in> set new \<longleftrightarrow>
        (\<exists>r consumers c. consistent ownerOfTwo = Some r \<and> r \<noteq> {} \<and>
           Inr threeConsumers = (Inr consumers :: string + Consumer list) \<and>
           c \<in> set consumers \<and> q = Add (Str (ID c)) \<and>
           sampleLocator r (ID c) = Some (instanceID ownerOfTwo) \<and> ID c \<notin> consumerSet ownerOfTwo)) \<and>
     (\<forall>c. c \<in> consumerSet ownerOfTwo \<and> c \<notin> consumerSet ownerReconciled \<longrightarrow> Add (Str c) \<notin> set new))"
proof -
  have n: "ReturnNil \<noteq> Panic" by simp
  from updateConsumerSet_enqueues_acquired [OF ownerOfTwo_reconcile n] ownerOfTwo_reconcile n
  show ?thesis by blast
qed

text \<open>
  C4, as stated, fails: an ID that is absent from the listing keeps its membership whatever
  the ring says. Replica \<open>A\<close> acquires \<open>c1\<close> and \<open>c2\<close>; then \<open>B\<close> joins and the listing has
  only \<open>c1\<close>; the ring now locates \<open>c2\<close> on \<open>B\<close>, and \<open>c2\<close> is still in the consumer set of \<open>A\<close>.
\<close>

theorem unlisted_consumer_stays_owned:
  "calls sampleLocator
     [InstanceUp ''A'' (Inr [\<lparr>ID = ''c1''\<rparr>, \<lparr>ID = ''c2''\<rparr>]),
      InstanceUp ''B'' (Inr [\<lparr>ID = ''c1''\<rparr>])]
     (NewHashDispatcher ''A'') = Some staleOwner \<and>
   consistent staleOwner = Some {''A'', ''B''} \<and>
   ''c2'' \<in> consumerSet staleOwner \<and>
   sampleLocator {''A'', ''B''} ''c2'' = Some ''B'' \<and> instanceID staleOwner = ''A''"
  by (simp add: OnInstanceUp_def updateConsumerSet_def NewHashDispatcher_def staleOwner_def
        sampleLocator_def insert_commute)

text \<open>
  C4, amended. After a reconciliation that returns \<open>nil\<close> on a ring with members and a
  listing that succeeded, a listed consumer is in the consumer set if and only if the ring
  locates its ID on this instance; the membership of an ID that is not listed is unchanged.
\<close>

theorem updateConsumerSet_listed_invariant:
  assumes "consistent d = Some r" and "r \<noteq> {}" and "listed = Inr consumers"
    and "updateConsumerSet L listed d = (ReturnNil, d')"
  shows "(\<forall>c \<in> set consumers. ID c \<in> consumerSet d' \<longleftrightarrow> L r (ID c) = Some (instanceID d)) \<and>
         (\<forall>c. c \<notin> ID ` set consumers \<longrightarrow> (c \<in> consumerSet d' \<longleftrightarrow> c \<in> consumerSet d))"
proof -
  from updateConsumerSet_ReturnNil [OF assms] obtain new where
    new: "set new = {c. c \<in> ID ` set consumers \<and> L r c = Some (instanceID d) \<and> c \<notin> consumerSet d}"
    and cs: "consumerSet d' = (consumerSet d \<union> set new) -
        {c. c \<in> ID ` set consumers \<and> L r c \<noteq> Some (instanceID d) \<and> c \<in> consumerSet d}"
    by blast
  show ?thesis unfolding cs new by auto
qed

theorem updateConsumerSet_listed_invariant_witness:
  "consistent ownerOfTwo = Some {''A'', ''B''} \<and> {''A'', ''B''} \<noteq> ({} :: string set) \<and>
   updateConsumerSet sampleLocator (Inr threeConsumers) ownerOfTwo = (ReturnNil, ownerReconciled) \<and>
   \<lparr>ID = ''c1''\<rparr> \<in> set threeConsumers \<and>
   (''c1'' \<in> consumerSet ownerReconciled) =
     (sampleLocator {''A'', ''B''} ''c1'' = Some (instanceID ownerOfTwo)) \<and>
   \<lparr>ID = ''c2''\<rparr> \<in> set threeConsumers \<and>
   (''c2'' \<in> consumerSet ownerReconciled) =
     (sampleLocator {''A'', ''B''} ''c2'' = Some (instanceID ownerOfTwo)) \<and>
   ''c4'' \<notin> ID ` set threeConsumers \<and>
   (''c4'' \<in> consumerSet ownerReconciled) = (''c4'' \<in> consumerSet ownerOfTwo)"
proof -
  have r: "consistent ownerOfTwo = Some {''A'', ''B''}" by (simp add: ownerOfTwo_def)
  have ne: "{''A'', ''B''} \<noteq> ({} :: string set)" by simp
  have l: "(Inr threeConsumers :: string + Consumer list) = Inr threeConsumers" by simp
  have m1: "\<lparr>ID = ''c1''\<rparr> \<in> set threeConsumers" by (simp add: threeConsumers_def)
  have m2: "\<lparr>ID = ''c2''\<rparr> \<in> set threeConsumers" by (simp add: threeConsumers_def)
  have m4: "''c4'' \<notin> ID ` set threeConsumers" by (simp add: threeConsumers_def)
  note inv = updateConsumerSet_listed_invariant [OF r ne l ownerOfTwo_reconcile]
  from inv m1 have c1: "(''c1'' \<in> consumerSet ownerReconciled) =
     (sampleLocator {''A'', ''B''} ''c1'' = Some (instanceID ownerOfTwo))" by fastforce
  from inv m2 have c2: "(''c2'' \<in> consumerSet ownerReconciled) =
     (sampleLocator {''A'', ''B''} ''c2'' = Some (instanceID ownerOfTwo))" by fastforce
  from inv m4 have c4: "(''c4'' \<in> consumerSet ownerReconciled) = (''c4'' \<in> consumerSet ownerOfTwo)"
    by blast
  from r ne ownerOfTwo_reconcile m1 m2 m4 c1 c2 c4 show ?thesis by blast
qed

subsection \<open>A failed listing\<close>

text \<open>
  C6. If the ring has members and listing the consumers fails, \<open>updateConsumerSet\<close> returns
  an error and the dispatcher is exactly as before: the consumer set is unchanged and
  nothing was added to the work queue.
\<close>

theorem updateConsumerSet_list_error:
  assumes "consistent d = Some r" and "r \<noteq> {}" and "listed = Inl err"
  shows "updateConsumerSet L listed d = (ReturnErr (''unable to list consumers: '' @ err), d)"
  using assms by (simp add: updateConsumerSet_def)

theorem updateConsumerSet_list_error_witness:
  "updateConsumerSet sampleLocator (Inl ''connection refused'')
     ((NewHashDispatcher ''A'')\<lparr>consumerSet := {''c1''}, consistent := Some {''A''}\<rparr>) =
   (ReturnErr ''unable to list consumers: connection refused'',
    (NewHashDispatcher ''A'')\<lparr>consumerSet := {''c1''}, consistent := Some {''A''}\<rparr>)"
  using updateConsumerSet_list_error
    [of "(NewHashDispatcher ''A'')\<lparr>consumerSet := {''c1''}, consistent := Some {''A''}\<rparr>"
        "{''A''}" "Inl ''connection refused''" "''connection refused''" sampleLocator]
  by (simp add: NewHashDispatcher_def)

subsection \<open>The empty ring\<close>

lemma check_empty_ring:
  "consistent d = Some {} \<Longrightarrow> check L instances listed d = (ReturnNil, d)"
  by (cases instances) (simp_all add: check_def updateConsumerSet_def)

lemma doCall_empty_ring:
  "consistent d = Some {} \<Longrightarrow> \<not> isInstanceUp c \<Longrightarrow> doCall L c d = (ReturnNil, d)"
  by (cases c) (simp_all add: check_empty_ring OnInstanceDown_def)

lemma calls_empty_ring:
  "consistent d = Some {} \<Longrightarrow> \<forall>c \<in> set cs. \<not> isInstanceUp c \<Longrightarrow> calls L cs d = Some d"
  by (induction cs) (simp_all add: doCall_empty_ring)

text \<open>
  C3, as stated, fails: the ring can lose its last member while the consumer set is not
  empty. Replica \<open>A\<close> registers itself and acquires \<open>c1\<close>; then \<open>A\<close> is reported down; the
  ring is empty, the reconciliation returns at its guard, and \<open>Dispatch\<close> still answers true
  for \<open>c1\<close>.
\<close>

theorem dispatch_true_on_empty_ring:
  "calls sampleLocator
     [InstanceUp ''A'' (Inr [\<lparr>ID = ''c1''\<rparr>]), InstanceDown ''A'' (Inr [\<lparr>ID = ''c1''\<rparr>])]
     (NewHashDispatcher ''A'') = Some ownerWithoutRing \<and>
   consistent ownerWithoutRing = Some {} \<and> Dispatch ''c1'' ownerWithoutRing"
  by (simp add: OnInstanceUp_def OnInstanceDown_def updateConsumerSet_def NewHashDispatcher_def
        ownerWithoutRing_def sampleLocator_def Dispatch_def)

text \<open>
  C3, amended. On a new dispatcher, as long as no instance is registered (no call of
  \<open>OnInstanceUp\<close>), the calls of \<open>OnInstanceDown\<close> and \<open>check\<close> leave the dispatcher as it was
  created, and \<open>Dispatch\<close> returns false for every consumer ID. And on any dispatcher whose
  ring is empty, \<open>updateConsumerSet\<close> and \<open>check\<close> return without changing anything.
\<close>

theorem empty_ring_until_registered:
  assumes "\<forall>c \<in> set cs. \<not> isInstanceUp c"
  shows "calls L cs (NewHashDispatcher me) = Some (NewHashDispatcher me) \<and>
         \<not> Dispatch consumerID (NewHashDispatcher me) \<and>
         (consistent d = Some {} \<longrightarrow>
            updateConsumerSet L listed d = (ReturnNil, d) \<and>
            check L instances listed d = (ReturnNil, d))"
  using assms calls_empty_ring [of "NewHashDispatcher me" cs L]
  by (simp add: check_empty_ring updateConsumerSet_empty_ring)
     (simp add: NewHashDispatcher_def Dispatch_def)

theorem empty_ring_until_registered_witness:
  "\<not> isInstanceUp (Tick (Inr [\<lparr>ID = ''A''\<rparr>]) (Inr [\<lparr>ID = ''c1''\<rparr>])) \<and>
   \<not> isInstanceUp (InstanceDown ''A'' (Inr [\<lparr>ID = ''c1''\<rparr>])) \<and>
   calls sampleLocator
     [Tick (Inr [\<lparr>ID = ''A''\<rparr>]) (Inr [\<lparr>ID = ''c1''\<rparr>]), InstanceDown ''A'' (Inr [\<lparr>ID = ''c1''\<rparr>])]
     (NewHashDispatcher ''A'') = Some (NewHashDispatcher ''A'') \<and>
   \<not> Dispatch ''c1'' (NewHashDispatcher ''A'') \<and>
   consistent ownerWithoutRing = Some {} \<and>
   updateConsumerSet sampleLocator (Inr [\<lparr>ID = ''c2''\<rparr>]) ownerWithoutRing = (ReturnNil, ownerWithoutRing) \<and>
   check sampleLocator (Inr [\<lparr>ID = ''A''\<rparr>]) (Inr [\<lparr>ID = ''c2''\<rparr>]) ownerWithoutRing = (ReturnNil, ownerWithoutRing)"
proof -
  have h: "\<forall>c \<in> set [Tick (Inr [\<lparr>ID = ''A''\<rparr>]) (Inr [\<lparr>ID = ''c1''\<rparr>]), InstanceDown ''A'' (Inr [\<lparr>ID = ''c1''\<rparr>])].
      \<not> isInstanceUp c" by simp
  have e: "consistent ownerWithoutRing = Some {}" by (simp add: ownerWithoutRing_def)
  from empty_ring_until_registered [OF h, of sampleLocator "''A''" "''c1''" ownerWithoutRing
      "Inr [\<lparr>ID = ''c2''\<rparr>]" "Inr [\<lparr>ID = ''A''\<rparr>]"] e
  show ?thesis by simp
qed

subsection \<open>Membership signals\<close>

lemma OnInstanceUp_ring:
  "OnInstanceUp L listed inst d = (res, d') \<Longrightarrow> res \<noteq> Panic \<Longrightarrow>
   \<exists>members. consistent d' = Some members \<and> inst \<in> members"
  by (auto simp: OnInstanceUp_def split: option.splits if_splits dest!: updateConsumerSet_consistent)

lemma OnInstanceDown_ring:
  "OnInstanceDown L listed inst d = (res, d') \<Longrightarrow> res \<noteq> Panic \<Longrightarrow>
   \<exists>members. consistent d' = Some members \<and> inst \<notin> members"
  by (auto simp: OnInstanceDown_def Let_def split: option.splits if_splits dest!: updateConsumerSet_consistent)

text \<open>
  C7. \<open>OnInstanceUp\<close> for an instance that is in the ring returns \<open>nil\<close> and changes nothing,
  whatever the listing would answer (no reconciliation runs); so does \<open>OnInstanceDown\<close> for
  an instance that is not in the ring. Hence after a call of either that did not panic, the
  same call again returns \<open>nil\<close> and leaves the dispatcher as the first call left it.
\<close>

theorem membership_signals_idempotent:
  "(consistent d = Some members \<and> inst \<in> members \<longrightarrow> OnInstanceUp L listed inst d = (ReturnNil, d)) \<and>
   (consistent d = Some members \<and> inst \<notin> members \<longrightarrow> OnInstanceDown L listed inst d = (ReturnNil, d)) \<and>
   (OnInstanceUp L listed inst d = (res, d') \<and> res \<noteq> Panic \<longrightarrow>
      OnInstanceUp L listed' inst d' = (ReturnNil, d')) \<and>
   (OnInstanceDown L listed inst d = (res, d') \<and> res \<noteq> Panic \<longrightarrow>
      OnInstanceDown L listed' inst d' = (ReturnNil, d'))"
proof (intro conjI impI)
  assume "consistent d = Some members \<and> inst \<in> members"
  then show "OnInstanceUp L listed inst d = (ReturnNil, d)" by (simp add: OnInstanceUp_def)
next
  assume "consistent d = Some members \<and> inst \<notin> members"
  then show "OnInstanceDown L listed inst d = (ReturnNil, d)" by (simp add: OnInstanceDown_def)
next
  assume "OnInstanceUp L listed inst d = (res, d') \<and> res \<noteq> Panic"
  then obtain ms where "consistent d' = Some ms" "inst \<in> ms" using OnInstanceUp_ring by blast
  then show "OnInstanceUp L listed' inst d' = (ReturnNil, d')" by (simp add: OnInstanceUp_def)
next
  assume "OnInstanceDown L listed inst d = (res, d') \<and> res \<noteq> Panic"
  then obtain ms where "consistent d' = Some ms" "inst \<notin> ms" using OnInstanceDown_ring by blast
  then show "OnInstanceDown L listed' inst d' = (ReturnNil, d')" by (simp add: OnInstanceDown_def)
qed

theorem membership_signals_idempotent_witness:
  "consistent ownerOfTwo = Some {''A'', ''B''} \<and> ''B'' \<in> {''A'', ''B''} \<and>
   OnInstanceUp sampleLocator (Inl ''down'') ''B'' ownerOfTwo = (ReturnNil, ownerOfTwo) \<and>
   ''C'' \<notin> {''A'', ''B''} \<and>
   OnInstanceDown sampleLocator (Inl ''down'') ''C'' ownerOfTwo = (ReturnNil, ownerOfTwo) \<and>
   OnInstanceUp sampleLocator (Inr [\<lparr>ID = ''c1''\<rparr>]) ''A'' (NewHashDispatcher ''A'') =
     (ReturnNil, ownerWithoutRing\<lparr>consistent := Some {''A''}\<rparr>) \<and>
   OnInstanceUp sampleLocator (Inr []) ''A'' (ownerWithoutRing\<lparr>consistent := Some {''A''}\<rparr>) =
     (ReturnNil, ownerWithoutRing\<lparr>consistent := Some {''A''}\<rparr>) \<and>
   OnInstanceDown sampleLocator (Inr [\<lparr>ID = ''c1''\<rparr>]) ''A'' (ownerWithoutRing\<lparr>consistent := Some {''A''}\<rparr>) =
     (ReturnNil, ownerWithoutRing) \<and>
   OnInstanceDown sampleLocator (Inr []) ''A'' ownerWithoutRing = (ReturnNil, ownerWithoutRing)"
proof -
  have r: "consistent ownerOfTwo = Some {''A'', ''B''}" by (simp add: ownerOfTwo_def)
  have up: "OnInstanceUp sampleLocator (Inr [\<lparr>ID = ''c1''\<rparr>]) ''A'' (NewHashDispatcher ''A'') =
     (ReturnNil, ownerWithoutRing\<lparr>consistent := Some {''A''}\<rparr>)"
    by (simp add: OnInstanceUp_def updateConsumerSet_def NewHashDispatcher_def
          ownerWithoutRing_def sampleLocator_def)
  have down: "OnInstanceDown sampleLocator (Inr [\<lparr>ID = ''c1''\<rparr>]) ''A''
       (ownerWithoutRing\<lparr>consistent := Some {''A''}\<rparr>) = (ReturnNil, ownerWithoutRing)"
    by (simp add: OnInstanceDown_def updateConsumerSet_def ownerWithoutRing_def)
  from membership_signals_idempotent
         [of ownerOfTwo "{''A'', ''B''}" "''B''" sampleLocator "Inl ''down''"]
       membership_signals_idempotent
         [of ownerOfTwo "{''A'', ''B''}" "''C''" sampleLocator "Inl ''down''"]
       membership_signals_idempotent
         [of "NewHashDispatcher ''A''" _ "''A''" sampleLocator "Inr [\<lparr>ID = ''c1''\<rparr>]" ReturnNil
             "ownerWithoutRing\<lparr>consistent := Some {''A''}\<rparr>" "Inr []"]
       membership_signals_idempotent
         [of "ownerWithoutRing\<lparr>consistent := Some {''A''}\<rparr>" _ "''A''" sampleLocator
             "Inr [\<lparr>ID = ''c1''\<rparr>]" ReturnNil ownerWithoutRing "Inr []"]
       r up down
  show ?thesis by simp
qed

subsection \<open>The resync workers\<close>

lemma workerLoop_failures:
  "workerLoop (replicate n ((Str c, False), Some err)) d =
     (d\<lparr>sourceClient := sourceClient d @ replicate n [c],
        workQueue := workQueue d @ concat (replicate n [AddRateLimited (Str c), Done (Str c)])\<rparr>, False)"
  by (induction n arbitrary: d) (simp_all add: processNextResync_def replicate_append_same)

text \<open>
  C8. When \<open>Resync\<close> fails for a string item, \<open>processNextResync\<close> calls \<open>AddRateLimited\<close> on
  the item (then the deferred \<open>Done\<close>) and returns true. Nothing counts the failures: a
  worker that meets \<open>n\<close> failures of the same ID in a row re-adds it \<open>n\<close> times, for every \<open>n\<close>.
\<close>

theorem resync_failure_requeues:
  "processNextResync (Str c, False) (Some err) d =
     (True, d\<lparr>sourceClient := sourceClient d @ [[c]],
               workQueue := workQueue d @ [AddRateLimited (Str c), Done (Str c)]\<rparr>) \<and>
   workerLoop (replicate n ((Str c, False), Some err)) d =
     (d\<lparr>sourceClient := sourceClient d @ replicate n [c],
        workQueue := workQueue d @ concat (replicate n [AddRateLimited (Str c), Done (Str c)])\<rparr>,
      False)"
  by (simp add: workerLoop_failures) (simp add: processNextResync_def)

text \<open>
  C9. For an item that is not a string, \<open>processNextResync\<close> calls \<open>Forget\<close> and the deferred
  \<open>Done\<close> on it and nothing else on the queue, does not call \<open>Resync\<close>, and returns true.
\<close>

theorem malformed_item_forgotten:
  "processNextResync (NonStr t, False) resyncErr d =
     (True, d\<lparr>workQueue := workQueue d @ [Forget (NonStr t), Done (NonStr t)]\<rparr>) \<and>
   sourceClient (snd (processNextResync (NonStr t, False) resyncErr d)) = sourceClient d"
  by (simp add: processNextResync_def)

text \<open>
  C10. For every item that \<open>Get\<close> returns without the shutdown flag, whatever the item and
  whatever \<open>Resync\<close> answers, \<open>processNextResync\<close> returns true and the calls it makes on
  the queue end with \<open>Done\<close> on that item, which occurs once among them.
\<close>

theorem retrieved_item_done_once:
  "\<exists>before. workQueue (snd (processNextResync (x, False) resyncErr d)) =
       workQueue d @ before @ [Done x] \<and> Done x \<notin> set before \<and>
       fst (processNextResync (x, False) resyncErr d)"
  by (cases x; cases resyncErr) (simp_all add: processNextResync_def)

subsection \<open>Start, the cancellation and the workers\<close>

lemma updateConsumerSet_workQueue_grows:
  assumes "updateConsumerSet L listed d = (res, d')"
  shows "set (workQueue d) \<subseteq> set (workQueue d')"
proof (cases "\<exists>r consumers. consistent d = Some r \<and> r \<noteq> {} \<and> listed = Inr consumers")
  case True
  then obtain r consumers where
    h: "consistent d = Some r" "r \<noteq> {}" "listed = Inr consumers" by blast
  show ?thesis
  proof (cases "rangeConsumers L r (instanceID d) (consumerSet d) consumers ([], [], workQueue d)")
    case (Inl wq)
    from rangeConsumers_panic_log [OF Inl] obtain new where
      "wq = workQueue d @ map (\<lambda>c. Add (Str c)) new" by blast
    moreover from assms h Inl have "workQueue d' = wq" by (auto simp: updateConsumerSet_def)
    ultimately show ?thesis by simp
  next
    case (Inr acc)
    obtain toAdd toRemove wq where acc: "acc = (toAdd, toRemove, wq)" by (cases acc)
    from rangeConsumers_log [OF Inr [unfolded acc]] obtain new where
      "wq = workQueue d @ map (\<lambda>c. Add (Str c)) new" by blast
    moreover from assms h Inr acc have "workQueue d' = wq" by (auto simp: updateConsumerSet_def)
    ultimately show ?thesis by simp
  qed
next
  case False
  with assms have "d' = d"
    by (auto simp: updateConsumerSet_def split: option.splits sum.splits if_splits)
  then show ?thesis by simp
qed

lemma check_workQueue_grows:
  assumes "check L instances listed d = (res, d')"
  shows "set (workQueue d) \<subseteq> set (workQueue d')"
proof (cases instances)
  case (Inl err)
  with assms show ?thesis by (simp add: check_def)
next
  case (Inr insts)
  show ?thesis
  proof (cases "consistent d")
    case None
    with assms Inr show ?thesis by (simp add: check_def)
  next
    case (Some members)
    obtain res1 d1 where
      u: "updateConsumerSet L listed
            (d\<lparr>consistent := Some (Set.filter (\<lambda>m. isMemberActive m insts) members)\<rparr>) = (res1, d1)"
      by (cases "updateConsumerSet L listed
            (d\<lparr>consistent := Some (Set.filter (\<lambda>m. isMemberActive m insts) members)\<rparr>)")
    with assms Inr Some have "d' = d1"
      by (auto simp: check_def split: outcome.splits)
    with updateConsumerSet_workQueue_grows [OF u] show ?thesis by simp
  qed
qed

lemma processNextResync_workQueue_grows:
  "processNextResync got resyncErr d = (b, d') \<Longrightarrow> set (workQueue d) \<subseteq> set (workQueue d')"
  by (auto simp: processNextResync_def split: prod.splits if_splits item.splits option.splits)

lemma step_startInv:
  assumes "step L a s = Some s'" and "startInv s"
  shows "startInv s'"
proof (cases a)
  case CancelCtx
  with assms show ?thesis by (auto simp: startInv_def)
next
  case StepStart
  with assms show ?thesis
    by (auto simp: startInv_def split: startPC.splits if_splits)
next
  case StepPool
  with assms show ?thesis
    by (auto simp: startInv_def split: poolPC.splits if_splits)
next
  case (StepWorker i got resyncErr)
  obtain b d' where p: "processNextResync got resyncErr (dispatcher s) = (b, d')"
    by (cases "processNextResync got resyncErr (dispatcher s)")
  from processNextResync_workQueue_grows [OF p] assms StepWorker p
  show ?thesis by (cases b) (auto simp: startInv_def split: if_splits)
next
  case (StepCheck instances listed)
  obtain res d' where c: "check L instances listed (dispatcher s) = (res, d')"
    by (cases "check L instances listed (dispatcher s)")
  from check_workQueue_grows [OF c] assms StepCheck c
  show ?thesis by (cases res) (auto simp: startInv_def split: if_splits)
qed

lemma filter_update_Exited:
  "i < length ws \<Longrightarrow> ws ! i = Running \<Longrightarrow>
   length (filter (\<lambda>w. w = Exited) (ws[i := Exited])) = Suc (length (filter (\<lambda>w. w = Exited) ws))"
proof (induction ws arbitrary: i)
  case Nil
  then show ?case by simp
next
  case (Cons w ws)
  then show ?case by (cases i) auto
qed

lemma all_Exited_no_Running:
  assumes "\<forall>w \<in> set ws. w = Exited" and "i < length ws"
  shows "ws ! i \<noteq> Running"
proof -
  from assms(2) have "ws ! i \<in> set ws" by (rule nth_mem)
  with assms(1) have "ws ! i = Exited" by blast
  then show ?thesis by simp
qed

lemma count_Exited_full:
  assumes "length (filter (\<lambda>w. w = Exited) ws) = length ws"
  shows "\<forall>w \<in> set ws. w = Exited"
proof (rule ccontr)
  assume "\<not> (\<forall>w \<in> set ws. w = Exited)"
  then obtain w where w: "w \<in> set ws" "w \<noteq> Exited" by blast
  have "length (filter (\<lambda>w. w = Exited) ws) < length ws"
    using w by (rule length_filter_less)
  with assms show False by simp
qed

lemma step_poolInv:
  assumes "step L a s = Some s'" and "poolInv s"
  shows "poolInv s'"
proof (cases a)
  case CancelCtx
  with assms show ?thesis by (auto simp: poolInv_def split: poolPC.splits)
next
  case StepStart
  with assms show ?thesis
    by (auto simp: poolInv_def split: startPC.splits poolPC.splits if_splits)
next
  case StepPool
  show ?thesis
  proof (cases "poolAt s")
    case NotStarted
    with assms StepPool show ?thesis by simp
  next
    case AtWgAdd
    with assms StepPool show ?thesis by (auto simp: poolInv_def)
  next
    case (Spawning n)
    with assms StepPool show ?thesis by (auto simp: poolInv_def split: if_splits)
  next
    case AtWgWait
    with assms StepPool have w: "wg s = 0" and s': "s' = s\<lparr>poolAt := PoolReturned\<rparr>"
      by (auto split: if_splits)
    from assms(2) AtWgWait w have
      "length (filter (\<lambda>w. w = Exited) (workers s)) = length (workers s)"
      "length (workers s) = maxConcurrentResyncHandlers"
      "startAt s \<noteq> AtGoWorkers"
      by (auto simp: poolInv_def)
    with count_Exited_full [of "workers s"] show ?thesis
      unfolding s' by (simp add: poolInv_def)
  next
    case PoolReturned
    with assms StepPool show ?thesis by simp
  qed
next
  case (StepWorker i got resyncErr)
  obtain b d' where p: "processNextResync got resyncErr (dispatcher s) = (b, d')"
    by (cases "processNextResync got resyncErr (dispatcher s)")
  show ?thesis
  proof (cases b)
    case True
    with assms StepWorker p have "s' = s\<lparr>dispatcher := d'\<rparr>"
      by (auto split: if_splits)
    with assms(2) show ?thesis
      by (simp add: poolInv_def split: poolPC.splits)
  next
    case False
    with assms StepWorker p have
      en: "i < length (workers s)" "workers s ! i = Running"
      and s': "s' = s\<lparr>dispatcher := d', workers := (workers s)[i := Exited], wg := wg s - 1\<rparr>"
      and pos: "0 < wg s"
      by (auto split: if_splits)
    note cnt = filter_update_Exited [OF en]
    show ?thesis
    proof (cases "poolAt s")
      case NotStarted
      with assms(2) en show ?thesis by (simp add: poolInv_def)
    next
      case AtWgAdd
      with assms(2) en show ?thesis by (simp add: poolInv_def)
    next
      case (Spawning n)
      with assms(2) cnt pos show ?thesis unfolding s' by (simp add: poolInv_def)
    next
      case AtWgWait
      with assms(2) cnt pos show ?thesis unfolding s' by (simp add: poolInv_def)
    next
      case PoolReturned
      with assms(2) en all_Exited_no_Running [of "workers s" i] show ?thesis
        by (simp add: poolInv_def)
    qed
  qed
next
  case (StepCheck instances listed)
  with assms show ?thesis
    by (auto simp: poolInv_def split: poolPC.splits if_splits prod.splits outcome.splits)
qed

lemma exec_inv:
  "exec L as s = Some s' \<Longrightarrow> startInv s \<Longrightarrow> poolInv s \<Longrightarrow> startInv s' \<and> poolInv s'"
proof (induction as arbitrary: s)
  case Nil
  then show ?case by simp
next
  case (Cons a as)
  then obtain s1 where s1: "step L a s = Some s1" "exec L as s1 = Some s'"
    by (auto split: option.splits)
  from Cons.IH [OF s1(2) step_startInv [OF s1(1) Cons.prems(2)] step_poolInv [OF s1(1) Cons.prems(3)]]
  show ?case .
qed

lemma Start_progress:
  assumes "ctxDone s" and "startInv s"
  shows "\<exists>k s'. exec L (replicate k StepStart) s = Some s' \<and> startAt s' = StartReturned \<and>
           ShutDown \<in> set (workQueue (dispatcher s'))"
proof (cases "startAt s")
  case AtGoWorkers
  with assms(1) show ?thesis
    by (intro exI [of _ "Suc (Suc (Suc (Suc 0)))"]) simp
next
  case AtGoCheck
  with assms(1) show ?thesis
    by (intro exI [of _ "Suc (Suc (Suc 0))"]) simp
next
  case AtCtxDone
  with assms(1) show ?thesis
    by (intro exI [of _ "Suc (Suc 0)"]) simp
next
  case AtShutDown
  then show ?thesis
    by (intro exI [of _ "Suc 0"]) simp
next
  case StartReturned
  with assms(2) show ?thesis
    by (intro exI [of _ 0]) (simp add: startInv_def)
qed

lemma exec_append:
  "exec L (as @ bs) s = (case exec L as s of None \<Rightarrow> None | Some s' \<Rightarrow> exec L bs s')"
  by (induction as arbitrary: s) (auto split: option.splits)

lemma exec_untilShutDown:
  "exec sampleLocator untilShutDown (boot (NewHashDispatcher ''A'')) = Some returnedEarly"
  by (simp add: untilShutDown_def boot_def NewHashDispatcher_def returnedEarly_def
        maxConcurrentResyncHandlers_def)

lemma exec_untilWorkersExit:
  "exec sampleLocator untilWorkersExit returnedEarly = Some allStopped"
  by (simp add: untilWorkersExit_def returnedEarly_def allStopped_def processNextResync_def)

text \<open>
  C5, as stated, fails: \<open>Start\<close> starts \<open>startStatusResyncWorkers\<close> as a goroutine and
  does not wait for it. In the schedule below the ten workers are running, the context is
  cancelled, and \<open>Start\<close> calls \<open>ShutDown\<close> and returns while every worker is still in its
  loop and \<open>startStatusResyncWorkers\<close> is still at \<open>wg.Wait\<close>.
\<close>

theorem Start_returns_before_workers_exit:
  "exec sampleLocator untilShutDown (boot (NewHashDispatcher ''A'')) = Some returnedEarly \<and>
   startAt returnedEarly = StartReturned \<and>
   workers returnedEarly ! 0 = Running \<and> poolAt returnedEarly = AtWgWait"
  by (simp add: untilShutDown_def boot_def NewHashDispatcher_def returnedEarly_def
        maxConcurrentResyncHandlers_def)

text \<open>
  C5, amended. In every state the system reaches: if \<open>Start\<close> has returned, the context
  was cancelled and \<open>ShutDown\<close> was called on the work queue; once the context is cancelled
  \<open>Start\<close> is not blocked, and its own steps alone bring it to its return, with \<open>ShutDown\<close>
  called; and if \<open>startStatusResyncWorkers\<close> has returned, all ten workers have exited.
\<close>

theorem Start_returns_after_cancel:
  assumes "exec L as (boot d) = Some s"
  shows "(startAt s = StartReturned \<longrightarrow> ctxDone s \<and> ShutDown \<in> set (workQueue (dispatcher s))) \<and>
         (ctxDone s \<longrightarrow>
            (\<exists>k s'. exec L (replicate k StepStart) s = Some s' \<and> startAt s' = StartReturned \<and>
               ShutDown \<in> set (workQueue (dispatcher s')))) \<and>
         (poolAt s = PoolReturned \<longrightarrow>
            length (workers s) = maxConcurrentResyncHandlers \<and> (\<forall>w \<in> set (workers s). w = Exited))"
proof -
  have "startInv (boot d)" "poolInv (boot d)" by (simp_all add: startInv_def poolInv_def boot_def)
  from exec_inv [OF assms this] have inv: "startInv s" "poolInv s" by simp_all
  from inv have "startAt s = StartReturned \<longrightarrow> ctxDone s \<and> ShutDown \<in> set (workQueue (dispatcher s))"
    by (simp add: startInv_def)
  moreover from inv(1) have "ctxDone s \<longrightarrow>
      (\<exists>k s'. exec L (replicate k StepStart) s = Some s' \<and> startAt s' = StartReturned \<and>
         ShutDown \<in> set (workQueue (dispatcher s')))"
    using Start_progress [of s L] by blast
  moreover from inv(2) have "poolAt s = PoolReturned \<longrightarrow>
      length (workers s) = maxConcurrentResyncHandlers \<and> (\<forall>w \<in> set (workers s). w = Exited)"
    by (auto simp: poolInv_def)
  ultimately show ?thesis by blast
qed

theorem Start_returns_after_cancel_witness:
  "exec sampleLocator (untilShutDown @ untilWorkersExit) (boot (NewHashDispatcher ''A'')) =
     Some allStopped \<and>
   startAt allStopped = StartReturned \<and> ctxDone allStopped \<and>
   ShutDown \<in> set (workQueue (dispatcher allStopped)) \<and>
   (\<exists>k s'. exec sampleLocator (replicate k StepStart) allStopped = Some s' \<and>
      startAt s' = StartReturned \<and> ShutDown \<in> set (workQueue (dispatcher s'))) \<and>
   poolAt allStopped = PoolReturned \<and>
   length (workers allStopped) = maxConcurrentResyncHandlers \<and>
   set (workers allStopped) = {Exited}"
proof -
  have e: "exec sampleLocator (untilShutDown @ untilWorkersExit) (boot (NewHashDispatcher ''A'')) =
     Some allStopped"
    by (simp add: exec_append exec_untilShutDown exec_untilWorkersExit)
  have at: "startAt allStopped = StartReturned" "poolAt allStopped = PoolReturned"
    by (simp_all add: allStopped_def)
  have ws: "set (workers allStopped) = {Exited}" by (simp add: allStopped_def)
  from Start_returns_after_cancel [OF e] at e ws show ?thesis by simp
qed

end
